theory Spec2Isabelle
  imports Main "HOL-Library.AList" "HOL-Library.Multiset"
begin

section \<open>Data model of \<open>src/hooks/useRealtimeProgress.ts\<close>\<close>

text \<open>
  \<open>AgentProgress\<close> (types/research): what the hook hands to the views. The field
  \<open>status\<close> is a string at run time (the source casts the database string), and
  \<open>currentTask\<close> is optional: \<open>None\<close> stands for \<open>undefined\<close>.
\<close>

record AgentProgress =
  name :: string
  status :: string
  progress :: int
  currentTask :: "string option"

text \<open>
  \<open>DatabaseAgentProgress\<close>: a row of the table \<open>agent_progress\<close>. \<open>None\<close> is
  \<open>null\<close>. The column \<open>id\<close> is called \<open>id_col\<close> here (\<open>id\<close> is the identity
  function of HOL).
\<close>

record DatabaseAgentProgress =
  id_col :: string
  query_id :: "string option"
  agent_name :: string
  status :: "string option"
  progress :: "int option"
  current_task :: "string option"
  created_at :: "string option"
  updated_at :: "string option"

section \<open>The JavaScript primitives the fold relies on\<close>

text \<open>
  \<open>x || ''\<close> on a \<open>string | null | undefined\<close>: \<open>null\<close> gives the empty string, and
  so does the empty string itself.
\<close>

definition or_empty :: "string option \<Rightarrow> string" where
  "or_empty x = (case x of None \<Rightarrow> [] | Some s \<Rightarrow> s)"

text \<open>
  The time value of \<open>new Date(s)\<close>, in milliseconds since the epoch; \<open>None\<close> is the
  Invalid Date, whose time value is \<open>NaN\<close>. The empty string is never a date; what the
  engine makes of every other string is the parameter \<open>parse\<close> (\<open>Date.parse\<close>).
\<close>

definition new_Date :: "(string \<Rightarrow> int option) \<Rightarrow> string \<Rightarrow> int option" where
  "new_Date parse s = (if s = [] then None else parse s)"

text \<open>
  \<open>a > b\<close> on two dates compares the time values as numbers, and every comparison
  with \<open>NaN\<close> is false.
\<close>

definition date_gt :: "int option \<Rightarrow> int option \<Rightarrow> bool" where
  "date_gt a b =
     (case a of None \<Rightarrow> False
      | Some x \<Rightarrow> (case b of None \<Rightarrow> False | Some y \<Rightarrow> y < x))"

text \<open>
  The accumulator of the fold is the object literal \<open>{}\<close>: its own properties, in
  insertion order, and behind them the properties every object literal inherits from
  \<open>Object.prototype\<close>.
\<close>

type_synonym acc = "(string \<times> DatabaseAgentProgress) list"

definition Object_prototype_keys :: "string list" where
  "Object_prototype_keys =
     [''constructor'', ''__defineGetter__'', ''__defineSetter__'', ''hasOwnProperty'',
      ''__lookupGetter__'', ''__lookupSetter__'', ''isPrototypeOf'',
      ''propertyIsEnumerable'', ''toString'', ''valueOf'', ''__proto__'',
      ''toLocaleString'']"

text \<open>
  What \<open>acc[k]\<close> reads: an own property, else an inherited one (a function, or
  \<open>Object.prototype\<close> itself for \<open>__proto__\<close>), else \<open>undefined\<close>.
\<close>

datatype property = Undefined | Inherited | Own DatabaseAgentProgress

definition get_prop :: "acc \<Rightarrow> string \<Rightarrow> property" where
  "get_prop acc k =
     (case map_of acc k of
        Some r \<Rightarrow> Own r
      | None \<Rightarrow> if k \<in> set Object_prototype_keys then Inherited else Undefined)"

text \<open>Objects and functions are truthy, \<open>undefined\<close> is not.\<close>

definition truthy :: "property \<Rightarrow> bool" where
  "truthy p = (case p of Undefined \<Rightarrow> False | Inherited \<Rightarrow> True | Own r \<Rightarrow> True)"

text \<open>
  \<open>acc[k].updated_at\<close>: the field of a stored row; an inherited function has no such
  property, and the read gives \<open>undefined\<close>.
\<close>

definition updated_at_of :: "property \<Rightarrow> string option" where
  "updated_at_of p = (case p of Own r \<Rightarrow> updated_at r | Inherited \<Rightarrow> None | Undefined \<Rightarrow> None)"

text \<open>
  \<open>acc[k] = v\<close>: an existing own property keeps its place in the insertion order, a new
  one goes to the end.
\<close>

definition set_prop :: "acc \<Rightarrow> string \<Rightarrow> DatabaseAgentProgress \<Rightarrow> acc" where
  "set_prop acc k v = AList.update k v acc"

section \<open>The aggregation fold of \<open>fetchProgress\<close>\<close>

text \<open>The time value the fold compares: \<open>new Date(item.updated_at || '')\<close>.\<close>

definition item_time :: "(string \<Rightarrow> int option) \<Rightarrow> DatabaseAgentProgress \<Rightarrow> int option" where
  "item_time parse item = new_Date parse (or_empty (updated_at item))"

text \<open>The callback of \<open>data.reduce\<close> (lines 83 to 88).\<close>

definition reducer :: "(string \<Rightarrow> int option) \<Rightarrow> acc \<Rightarrow> DatabaseAgentProgress \<Rightarrow> acc" where
  "reducer parse acc item =
     (if \<not> truthy (get_prop acc (agent_name item)) \<or>
         date_gt (new_Date parse (or_empty (updated_at item)))
                 (new_Date parse (or_empty (updated_at_of (get_prop acc (agent_name item)))))
      then set_prop acc (agent_name item) item
      else acc)"

definition latestProgressByAgent ::
  "(string \<Rightarrow> int option) \<Rightarrow> DatabaseAgentProgress list \<Rightarrow> acc" where
  "latestProgressByAgent parse data = foldl (reducer parse) [] data"

text \<open>
  \<open>Object.values\<close>: the own properties whose key is an array index (the canonical
  decimal of an integer below \<open>2^32 - 1\<close>) come first, in ascending numeric order, then
  the other keys in insertion order.
\<close>

definition is_digit :: "char \<Rightarrow> bool" where
  "is_digit c = (48 \<le> (of_char c :: nat) \<and> (of_char c :: nat) \<le> 57)"

definition num_of :: "string \<Rightarrow> nat" where
  "num_of s = foldl (\<lambda>n c. 10 * n + ((of_char c :: nat) - 48)) 0 s"

definition is_array_index :: "string \<Rightarrow> bool" where
  "is_array_index s =
     (s \<noteq> [] \<and> list_all is_digit s \<and> (if hd s = CHR ''0'' then s = ''0'' else True)
      \<and> num_of s \<le> 4294967294)"

definition Object_values :: "acc \<Rightarrow> DatabaseAgentProgress list" where
  "Object_values acc =
     map snd (sort_key (\<lambda>p. num_of (fst p)) (filter (\<lambda>p. is_array_index (fst p)) acc)
              @ filter (\<lambda>p. \<not> is_array_index (fst p)) acc)"

text \<open>
  The callback of \<open>.map\<close> (lines 91 to 96). \<open>x || d\<close> takes \<open>d\<close> for every falsy
  \<open>x\<close>: \<open>null\<close>, the empty string, the number \<open>0\<close>.
\<close>

definition toAgentProgress :: "DatabaseAgentProgress \<Rightarrow> AgentProgress" where
  "toAgentProgress item =
     \<lparr> name = agent_name item,
       AgentProgress.status =
         (case status item of None \<Rightarrow> ''waiting''
          | Some s \<Rightarrow> if s = [] then ''waiting'' else s),
       AgentProgress.progress =
         (case progress item of None \<Rightarrow> 0 | Some n \<Rightarrow> if n = 0 then 0 else n),
       currentTask =
         (case current_task item of None \<Rightarrow> None
          | Some t \<Rightarrow> if t = [] then None else Some t) \<rparr>"

definition mappedProgress ::
  "(string \<Rightarrow> int option) \<Rightarrow> DatabaseAgentProgress list \<Rightarrow> AgentProgress list" where
  "mappedProgress parse data = map toAgentProgress (Object_values (latestProgressByAgent parse data))"

section \<open>The hook \<open>useRealtimeProgress\<close> as a transition system\<close>

text \<open>
  A push channel is identified by the two values its name is built from,
  \<open>agent-progress-${queryId}-${Date.now()}\<close>.
\<close>

type_synonym channel = "string \<times> int"

text \<open>
  How the awaited store query settles: it resolves to \<open>{ data, error }\<close> (each possibly
  \<open>null\<close>), or the await throws.
\<close>

datatype reply =
    Responded "DatabaseAgentProgress list option" "string option"
  | Threw string

text \<open>What the hook does to the outside world, in the order it does it.\<close>

datatype action =
    RemoveChannel channel
  | StoreRead nat string
  | OpenChannel channel
  | SetInterval nat
  | ClearInterval nat
  | SetTimeout int
  | ConsoleError string string
  | SetAgentProgress "AgentProgress list"

text \<open>
  The state of one mounted hook instance and of the run-time around it:
  \<^item> \<open>agentProgress\<close>, \<open>channelRef\<close>, \<open>lastFetchRef\<close>: the \<open>useState\<close> value and the
    two refs of the source;
  \<^item> \<open>deps\<close>: the \<open>queryId\<close> of the last effect run (\<open>None\<close> before the first);
    \<open>cleanup_fn\<close>: the \<open>intervalId\<close> captured by the cleanup that run returned
    (\<open>None\<close> when it returned nothing); \<open>mounted\<close>: React drops the state updates of
    an unmounted component;
  \<^item> \<open>channels\<close>: the channels registered with the client; \<open>intervals\<close>: the
    running \<open>setInterval\<close> timers with the \<open>queryId\<close> their callback closes over;
    \<open>timeouts\<close>: the pending \<open>setTimeout\<close> callbacks with their due time;
    \<open>inflight\<close>: the store queries awaited, each with its \<open>queryId\<close>;
  \<^item> \<open>unhandled\<close>: rejections of the promise \<open>fetchProgress\<close> returns, which
    no caller handles; \<open>trace\<close>: the actions so far.
\<close>

record hook =
  agentProgress :: "AgentProgress list"
  channelRef :: "channel option"
  lastFetchRef :: int
  deps :: "string option option"
  cleanup_fn :: "nat option"
  mounted :: bool
  channels :: "channel list"
  intervals :: "(nat \<times> string) list"
  timeouts :: "(int \<times> string) list"
  inflight :: "(nat \<times> string) list"
  next_interval :: nat
  next_request :: nat
  unhandled :: "string list"
  trace :: "action list"

definition init :: hook where
  "init = \<lparr> agentProgress = [], channelRef = None, lastFetchRef = 0, deps = None,
            cleanup_fn = None, mounted = True, channels = [], intervals = [],
            timeouts = [], inflight = [], next_interval = 0, next_request = 0,
            unhandled = [], trace = [] \<rparr>"

definition setAgentProgress :: "AgentProgress list \<Rightarrow> hook \<Rightarrow> hook" where
  "setAgentProgress v w =
     (if mounted w
      then w\<lparr>agentProgress := v, trace := trace w @ [SetAgentProgress v]\<rparr>
      else w\<lparr>trace := trace w @ [SetAgentProgress v]\<rparr>)"

definition console_error :: "string \<Rightarrow> string \<Rightarrow> hook \<Rightarrow> hook" where
  "console_error msg e w = w\<lparr>trace := trace w @ [ConsoleError msg e]\<rparr>"

definition removeChannel :: "channel \<Rightarrow> hook \<Rightarrow> hook" where
  "removeChannel c w = w\<lparr>channels := removeAll c (channels w), trace := trace w @ [RemoveChannel c]\<rparr>"

text \<open>
  \<open>fetchProgress\<close> up to its \<open>await\<close> (lines 59 to 73): the guard on
  \<open>lastFetchRef\<close>, then the store query is sent. \<open>now\<close> is what \<open>Date.now()\<close>
  returns.
\<close>

definition fetchProgress :: "string \<Rightarrow> int \<Rightarrow> hook \<Rightarrow> hook" where
  "fetchProgress queryId now w =
     (if now - lastFetchRef w < 500 then w
      else w\<lparr>lastFetchRef := now,
             inflight := inflight w @ [(next_request w, queryId)],
             next_request := Suc (next_request w),
             trace := trace w @ [StoreRead (next_request w) queryId]\<rparr>)"

text \<open>
  The \<open>try\<close> block after the \<open>await\<close> (lines 75 to 99); \<open>Inl e\<close> is the exception
  \<open>e\<close> leaving the block.
\<close>

definition try_block :: "(string \<Rightarrow> int option) \<Rightarrow> reply \<Rightarrow> hook \<Rightarrow> string + hook" where
  "try_block parse r w =
     (case r of
        Threw e \<Rightarrow> Inl e
      | Responded data error \<Rightarrow>
          (case error of
             Some e \<Rightarrow> Inr (console_error ''Error fetching agent progress:'' e w)
           | None \<Rightarrow>
               (case data of
                  None \<Rightarrow> Inr w
                | Some d \<Rightarrow> Inr (setAgentProgress (mappedProgress parse d) w))))"

text \<open>
  \<open>fetchProgress\<close> from its \<open>await\<close> on, with the \<open>catch\<close> (lines 100 to 103);
  \<open>Inl e\<close> would be the returned promise rejecting with \<open>e\<close>.
\<close>

definition fetchProgress_resume :: "(string \<Rightarrow> int option) \<Rightarrow> reply \<Rightarrow> hook \<Rightarrow> string + hook" where
  "fetchProgress_resume parse r w =
     (case try_block parse r w of
        Inl e \<Rightarrow> Inr (console_error ''Caught error in fetchProgress:'' e w)
      | Inr w' \<Rightarrow> Inr w')"

text \<open>
  The body of the effect (lines 41 to 159). \<open>!queryId\<close> holds for \<open>null\<close>,
  \<open>undefined\<close> and the empty string. \<open>now\<close> and \<open>stamp\<close> are the two readings of
  \<open>Date.now()\<close>, in \<open>fetchProgress\<close> and in the channel name.
\<close>

definition drop_channel :: "hook \<Rightarrow> hook" where
  "drop_channel w =
     (case channelRef w of
        None \<Rightarrow> w
      | Some c \<Rightarrow> (removeChannel c w)\<lparr>channelRef := None\<rparr>)"

definition subscribe :: "string \<Rightarrow> int \<Rightarrow> int \<Rightarrow> hook \<Rightarrow> hook" where
  "subscribe q now stamp w =
     (let w1 = drop_channel w;
          w2 = fetchProgress q now w1;
          w3 = w2\<lparr>channelRef := Some (q, stamp),
                  channels := channels w2 @ [(q, stamp)],
                  trace := trace w2 @ [OpenChannel (q, stamp)]\<rparr>
      in w3\<lparr>intervals := intervals w3 @ [(next_interval w3, q)],
             next_interval := Suc (next_interval w3),
             cleanup_fn := Some (next_interval w3),
             trace := trace w3 @ [SetInterval (next_interval w3)]\<rparr>)"

definition useEffect_body :: "string option \<Rightarrow> int \<Rightarrow> int \<Rightarrow> hook \<Rightarrow> hook" where
  "useEffect_body queryId now stamp w =
     (case queryId of
        None \<Rightarrow> (setAgentProgress [] w)\<lparr>cleanup_fn := None\<rparr>
      | Some q \<Rightarrow>
          if q = [] then (setAgentProgress [] w)\<lparr>cleanup_fn := None\<rparr>
          else subscribe q now stamp w)"

text \<open>The cleanup the effect returns (lines 162 to 170), closed over \<open>intervalId\<close>.\<close>

definition cleanup :: "nat \<Rightarrow> hook \<Rightarrow> hook" where
  "cleanup intervalId w =
     (let w1 = drop_channel w
      in w1\<lparr>intervals := filter (\<lambda>p. fst p \<noteq> intervalId) (intervals w1),
             trace := trace w1 @ [ClearInterval intervalId]\<rparr>)"

definition run_cleanup :: "hook \<Rightarrow> hook" where
  "run_cleanup w = (case cleanup_fn w of None \<Rightarrow> w | Some i \<Rightarrow> cleanup i w)"

text \<open>
  The events of the single-threaded run-time, each with the clock readings it needs:
  \<^item> \<open>Render q now stamp\<close>: React commits a render with \<open>queryId = q\<close>; when the
    dependency changed it runs the previous cleanup, then the effect;
  \<^item> \<open>Unmount\<close>: React runs the cleanup and drops the component;
  \<^item> \<open>Notify c t\<close>: the client calls a \<open>postgres_changes\<close> handler of channel \<open>c\<close>
    at time \<open>t\<close> (both handlers of the channel do the same). The handler checks nothing;
    whether the client still calls it once \<open>removeChannel\<close> was called is the
    client's affair, and is left open here;
  \<^item> \<open>ChannelStatus e\<close>: the callback given to \<open>subscribe\<close> runs;
  \<^item> \<open>TimeoutFires k t\<close>: the \<open>k\<close>-th pending timeout runs at time \<open>t\<close>, not before
    it is due;
  \<^item> \<open>IntervalTick i t\<close>: interval \<open>i\<close> fires at time \<open>t\<close>;
  \<^item> \<open>Settles n r t\<close>: the store query \<open>n\<close> settles with \<open>r\<close> at time \<open>t\<close> (the
    continuation does not read the clock).
  An event that is not enabled leaves the state as it is.
\<close>

datatype event =
    Render "string option" int int
  | Unmount
  | Notify channel int
  | ChannelStatus "string option"
  | TimeoutFires nat int
  | IntervalTick nat int
  | Settles nat reply int

fun step :: "(string \<Rightarrow> int option) \<Rightarrow> event \<Rightarrow> hook \<Rightarrow> hook" where
  "step parse (Render q now stamp) w =
     (if \<not> mounted w \<or> deps w = Some q then w
      else (useEffect_body q now stamp (run_cleanup w))\<lparr>deps := Some q\<rparr>)"
| "step parse Unmount w =
     (if mounted w then (run_cleanup w)\<lparr>mounted := False, cleanup_fn := None\<rparr> else w)"
| "step parse (Notify c t) w =
     w\<lparr>timeouts := timeouts w @ [(t + 100, fst c)], trace := trace w @ [SetTimeout (t + 100)]\<rparr>"
| "step parse (ChannelStatus e) w =
     (case e of None \<Rightarrow> w | Some x \<Rightarrow> console_error ''Supabase subscription error:'' x w)"
| "step parse (TimeoutFires k t) w =
     (if k < length (timeouts w) \<and> fst (timeouts w ! k) \<le> t
      then fetchProgress (snd (timeouts w ! k)) t
             (w\<lparr>timeouts := take k (timeouts w) @ drop (Suc k) (timeouts w)\<rparr>)
      else w)"
| "step parse (IntervalTick i t) w =
     (case map_of (intervals w) i of None \<Rightarrow> w | Some q \<Rightarrow> fetchProgress q t w)"
| "step parse (Settles n r t) w =
     (case map_of (inflight w) n of
        None \<Rightarrow> w
      | Some q \<Rightarrow>
          (case fetchProgress_resume parse r (w\<lparr>inflight := filter (\<lambda>p. fst p \<noteq> n) (inflight w)\<rparr>) of
             Inl e \<Rightarrow> w\<lparr>inflight := filter (\<lambda>p. fst p \<noteq> n) (inflight w), unhandled := unhandled w @ [e]\<rparr>
           | Inr w' \<Rightarrow> w'))"

definition run :: "(string \<Rightarrow> int option) \<Rightarrow> event list \<Rightarrow> hook \<Rightarrow> hook" where
  "run parse es w = foldl (\<lambda>s e. step parse e s) w es"

section \<open>Sample data\<close>

text \<open>
  The time values \<open>Date.parse\<close> gives on the two ISO-8601 strings of the examples
  (midnight UTC of 1 January 2024, and one second later).
\<close>

definition Date_parse_sample :: "string \<Rightarrow> int option" where
  "Date_parse_sample s =
     (if s = ''2024-01-01T00:00:00.000Z'' then Some 1704067200000
      else if s = ''2024-01-01T00:00:01.000Z'' then Some 1704067201000
      else None)"

definition row :: "string \<Rightarrow> string \<Rightarrow> string option \<Rightarrow> int option \<Rightarrow> string option \<Rightarrow> DatabaseAgentProgress" where
  "row i n s p u =
     \<lparr> id_col = i, query_id = Some ''q1'', agent_name = n, status = s, progress = p,
       current_task = None, created_at = None, updated_at = u \<rparr>"

section \<open>Properties of the aggregation fold\<close>

lemma reducer_absent:
  "map_of acc (agent_name x) = None \<Longrightarrow> \<not> agent_name x \<in> set Object_prototype_keys
   \<Longrightarrow> reducer parse acc x = set_prop acc (agent_name x) x"
  by (simp add: reducer_def get_prop_def truthy_def)


lemma reducer_own:
  "map_of acc (agent_name x) = Some c
   \<Longrightarrow> reducer parse acc x =
       (if date_gt (item_time parse x) (item_time parse c) then set_prop acc (agent_name x) x else acc)"
  by (simp add: reducer_def get_prop_def truthy_def updated_at_of_def item_time_def)

lemma map_of_set_prop: "map_of (set_prop acc k v) = (map_of acc)(k \<mapsto> v)"
  by (simp add: set_prop_def update_conv')

lemma map_of_reducer_other:
  "k \<noteq> agent_name x \<Longrightarrow> map_of (reducer parse acc x) k = map_of acc k"
  by (simp add: reducer_def map_of_set_prop)

lemma map_of_reducer_cases:
  "map_of (reducer parse acc x) (agent_name x) = Some x \<or>
   map_of (reducer parse acc x) (agent_name x) = map_of acc (agent_name x)"
  by (simp add: reducer_def map_of_set_prop)

lemma foldl_reducer_other:
  "k \<notin> agent_name ` set xs \<Longrightarrow> map_of (foldl (reducer parse) acc xs) k = map_of acc k"
  by (induction xs arbitrary: acc) (auto simp: map_of_reducer_other)


lemma date_gt_asym: "date_gt a b \<Longrightarrow> \<not> date_gt b a"
  by (auto simp: date_gt_def split: option.splits)

lemma date_gt_irrefl: "\<not> date_gt a a"
  by (auto simp: date_gt_def split: option.splits)

text \<open>An entry that no later row of its agent beats stays.\<close>

lemma foldl_reducer_keeps:
  "map_of acc (agent_name r) = Some r
   \<Longrightarrow> \<forall>r'\<in>set xs. agent_name r' = agent_name r \<longrightarrow> r' = r \<or> \<not> date_gt (item_time parse r') (item_time parse r)
   \<Longrightarrow> map_of (foldl (reducer parse) acc xs) (agent_name r) = Some r"
proof (induction xs arbitrary: acc)
  case Nil
  then show ?case by simp
next
  case (Cons x xs)
  have "map_of (reducer parse acc x) (agent_name r) = Some r"
  proof (cases "agent_name x = agent_name r")
    case True
    with Cons.prems show ?thesis
      by (auto simp: reducer_own map_of_set_prop)
  next
    case False
    with Cons.prems show ?thesis by (simp add: map_of_reducer_other)
  qed
  with Cons show ?case by simp
qed

text \<open>A row newer than the entry and than every other row of its agent ends up stored.\<close>

lemma foldl_reducer_latest:
  assumes "\<not> agent_name r \<in> set Object_prototype_keys"
    and "r \<in> set xs"
    and "\<forall>r'\<in>set xs. agent_name r' = agent_name r \<longrightarrow> r' = r \<or> date_gt (item_time parse r) (item_time parse r')"
    and "case map_of acc (agent_name r) of None \<Rightarrow> True
         | Some c \<Rightarrow> c = r \<or> date_gt (item_time parse r) (item_time parse c)"
  shows "map_of (foldl (reducer parse) acc xs) (agent_name r) = Some r"
  using assms
proof (induction xs arbitrary: acc)
  case Nil
  then show ?case by simp
next
  case (Cons x xs)
  show ?case
  proof (cases "x = r")
    case True
    have "map_of (reducer parse acc r) (agent_name r) = Some r"
      using Cons.prems(1,4)
      by (cases "map_of acc (agent_name r)") (auto simp: reducer_absent reducer_own map_of_set_prop)
    moreover have "\<forall>r'\<in>set xs. agent_name r' = agent_name r \<longrightarrow> r' = r \<or> \<not> date_gt (item_time parse r') (item_time parse r)"
      using Cons.prems(3) by (auto dest: date_gt_asym)
    ultimately show ?thesis using True by (simp add: foldl_reducer_keeps)
  next
    case False
    then have in_xs: "r \<in> set xs" using Cons.prems(2) by simp
    have rest: "\<forall>r'\<in>set xs. agent_name r' = agent_name r \<longrightarrow> r' = r \<or> date_gt (item_time parse r) (item_time parse r')"
      using Cons.prems(3) by simp
    have "case map_of (reducer parse acc x) (agent_name r) of None \<Rightarrow> True
         | Some c \<Rightarrow> c = r \<or> date_gt (item_time parse r) (item_time parse c)"
    proof (cases "agent_name x = agent_name r")
      case True
      have "date_gt (item_time parse r) (item_time parse x)"
        using Cons.prems(3) True False by auto
      moreover have "map_of (reducer parse acc x) (agent_name r) = Some x \<or>
          map_of (reducer parse acc x) (agent_name r) = map_of acc (agent_name r)"
        using map_of_reducer_cases [of parse acc x] True by simp
      ultimately show ?thesis using Cons.prems(4) by auto
    next
      case False
      then show ?thesis using Cons.prems(4) by (simp add: map_of_reducer_other)
    qed
    with Cons.IH [OF Cons.prems(1) in_xs rest] show ?thesis by simp
  qed
qed

lemma set_set_prop: "set (set_prop acc k v) \<subseteq> insert (k, v) (set acc)"
  unfolding set_prop_def by (induction acc) auto

lemma set_reducer: "snd ` set (reducer parse acc x) \<subseteq> insert x (snd ` set acc)"
proof -
  have "set (reducer parse acc x) \<subseteq> insert (agent_name x, x) (set acc)"
    using set_set_prop [of acc "agent_name x" x] by (auto simp: reducer_def)
  then show ?thesis by force
qed

lemma set_foldl_reducer: "snd ` set (foldl (reducer parse) acc xs) \<subseteq> snd ` set acc \<union> set xs"
proof (induction xs arbitrary: acc)
  case Nil
  then show ?case by simp
next
  case (Cons x xs)
  from Cons.IH [of "reducer parse acc x"] set_reducer [of parse acc x]
  show ?case by auto
qed

lemma set_Object_values: "set (Object_values acc) = snd ` set acc"
  by (auto simp: Object_values_def)

lemma mappedProgress_from_data:
  "p \<in> set (mappedProgress parse data) \<Longrightarrow> \<exists>item\<in>set data. p = toAgentProgress item"
proof -
  assume "p \<in> set (mappedProgress parse data)"
  then obtain item where i: "item \<in> snd ` set (latestProgressByAgent parse data)" and p: "p = toAgentProgress item"
    by (auto simp: mappedProgress_def set_Object_values)
  from i set_foldl_reducer [of parse "[]" data] have "item \<in> set data"
    by (auto simp: latestProgressByAgent_def)
  with p show ?thesis by blast
qed

lemmas agg_defs = mappedProgress_def latestProgressByAgent_def reducer_def get_prop_def Object_prototype_keys_def
     truthy_def updated_at_of_def or_empty_def new_Date_def date_gt_def row_def Object_values_def set_prop_def
     Date_parse_sample_def toAgentProgress_def is_array_index_def is_digit_def num_of_def item_time_def

lemma date_gt_None: "\<not> date_gt None b" "\<not> date_gt a None"
  by (simp_all add: date_gt_def split: option.splits)

text \<open>
  Apart from the inherited names, the fold stores for an agent the row that is strictly
  newer than every other row of that agent, wherever it stands in the input.
\<close>

lemma latestProgressByAgent_latest:
  assumes "agent_name r \<notin> set Object_prototype_keys"
    and "r \<in> set data"
    and "\<forall>r'\<in>set data. agent_name r' = agent_name r \<longrightarrow> r' = r \<or> date_gt (item_time parse r) (item_time parse r')"
  shows "get_prop (latestProgressByAgent parse data) (agent_name r) = Own r"
  using foldl_reducer_latest [OF assms(1) assms(2) assms(3), of "[]"]
  by (simp add: latestProgressByAgent_def get_prop_def)








subsection \<open>Latest wins\<close>

text \<open>
  Claim C1 (every agent name is mapped to its row with the greatest \<open>updated_at\<close>) fails
  for an agent whose name is a property every object literal inherits: for the single
  row of an agent called \<open>constructor\<close>, \<open>acc['constructor']\<close> reads the inherited
  function, which is truthy and has no \<open>updated_at\<close>, so neither disjunct of the test holds,
  the row is never stored, and the hook shows no agent at all.
\<close>

theorem inherited_agent_name_never_stored:
  "latestProgressByAgent Date_parse_sample
     [row ''r1'' ''constructor'' (Some ''active'') (Some 40) (Some ''2024-01-01T00:00:00.000Z'')] = []
   \<and> mappedProgress Date_parse_sample
     [row ''r1'' ''constructor'' (Some ''active'') (Some 40) (Some ''2024-01-01T00:00:00.000Z'')] = []"
  by (simp add: agg_defs)

subsection \<open>Order of the input\<close>




subsection \<open>Rows without a timestamp\<close>

text \<open>
  Against claim C3 as stated: a row with \<open>updated_at = null\<close> followed by a row of the same
  agent with a real timestamp. \<open>new Date('')\<close> is the Invalid Date, not the epoch, the
  comparison with it is false, and the row without a timestamp is kept.
\<close>

theorem null_timestamp_first_counterexample:
  "updated_at (row ''r1'' ''Writer'' (Some ''active'') (Some 10) None) = None
   \<and> item_time Date_parse_sample
        (row ''r2'' ''Writer'' (Some ''active'') (Some 20) (Some ''2024-01-01T00:00:00.000Z''))
      = Some 1704067200000
   \<and> get_prop (latestProgressByAgent Date_parse_sample
        [row ''r1'' ''Writer'' (Some ''active'') (Some 10) None,
         row ''r2'' ''Writer'' (Some ''active'') (Some 20) (Some ''2024-01-01T00:00:00.000Z'')]) ''Writer''
      = Own (row ''r1'' ''Writer'' (Some ''active'') (Some 10) None)
   \<and> mappedProgress Date_parse_sample
        [row ''r1'' ''Writer'' (Some ''active'') (Some 10) None,
         row ''r2'' ''Writer'' (Some ''active'') (Some 20) (Some ''2024-01-01T00:00:00.000Z'')]
      = [\<lparr>name = ''Writer'', AgentProgress.status = ''active'', AgentProgress.progress = 10,
          currentTask = None\<rparr>]"
  by (simp add: agg_defs)

text \<open>
  Claim C3, amended: the first row of an agent in the input stays the winner when it has no
  valid timestamp, and also when no later row of that agent has one. So of a row without a
  timestamp and a row with one, the one that comes first wins.
\<close>

theorem first_row_kept_when_timestamp_missing:
  assumes "agent_name r \<notin> set Object_prototype_keys"
    and "\<forall>x\<in>set pre. agent_name x \<noteq> agent_name r"
    and "item_time parse r = None \<or>
         (\<forall>x\<in>set post. agent_name x = agent_name r \<longrightarrow> item_time parse x = None)"
  shows "get_prop (latestProgressByAgent parse (pre @ r # post)) (agent_name r) = Own r"
proof -
  let ?a = "foldl (reducer parse) [] pre"
  have "map_of ?a (agent_name r) = None"
    using assms(2) by (subst foldl_reducer_other) auto
  then have "reducer parse ?a r = set_prop ?a (agent_name r) r"
    using assms(1) by (simp add: reducer_absent)
  then have stored: "map_of (reducer parse ?a r) (agent_name r) = Some r"
    by (simp add: map_of_set_prop)
  have "\<forall>x\<in>set post. agent_name x = agent_name r \<longrightarrow>
          x = r \<or> \<not> date_gt (item_time parse x) (item_time parse r)"
    using assms(3) by (auto simp: date_gt_None)
  with stored have "map_of (foldl (reducer parse) (reducer parse ?a r) post) (agent_name r) = Some r"
    by (rule foldl_reducer_keeps)
  then show ?thesis by (simp add: latestProgressByAgent_def get_prop_def)
qed

theorem first_row_kept_when_timestamp_missing_witness:
  "get_prop (latestProgressByAgent Date_parse_sample
     ([row ''r0'' ''Editor'' None None None]
      @ row ''r1'' ''Writer'' (Some ''active'') (Some 10) None
      # [row ''r2'' ''Writer'' (Some ''active'') (Some 20) (Some ''2024-01-01T00:00:00.000Z'')]))
     (agent_name (row ''r1'' ''Writer'' (Some ''active'') (Some 10) None))
   = Own (row ''r1'' ''Writer'' (Some ''active'') (Some 10) None)"
  by (rule first_row_kept_when_timestamp_missing) (simp_all add: agg_defs)

subsection \<open>Defaults at the public interface\<close>

text \<open>
  Against claim C10 as stated: a status that is not \<open>null\<close> but the empty string does not
  pass through, \<open>'' || 'waiting'\<close> is \<open>'waiting'\<close>.
\<close>

theorem empty_status_counterexample:
  "mappedProgress Date_parse_sample
     [row ''r1'' ''Writer'' (Some []) (Some 40) (Some ''2024-01-01T00:00:00.000Z'')]
   = [\<lparr>name = ''Writer'', AgentProgress.status = ''waiting'', AgentProgress.progress = 40,
       currentTask = None\<rparr>]"
  by (simp add: agg_defs)

text \<open>
  Claim C10, amended: every record the hook surfaces comes from a row of the fetched data,
  with a \<open>null\<close> or empty status replaced by \<open>waiting\<close> and every other status string
  unchanged, a \<open>null\<close> progress replaced by \<open>0\<close>, and a \<open>null\<close> or empty
  \<open>current_task\<close> left out.
\<close>

theorem mappedProgress_defaults:
  assumes "p \<in> set (mappedProgress parse data)"
  shows "\<exists>item\<in>set data.
           name p = agent_name item
         \<and> AgentProgress.status p =
             (case status item of None \<Rightarrow> ''waiting''
              | Some s \<Rightarrow> if s = [] then ''waiting'' else s)
         \<and> AgentProgress.progress p = (case progress item of None \<Rightarrow> 0 | Some n \<Rightarrow> n)
         \<and> currentTask p =
             (case current_task item of None \<Rightarrow> None
              | Some t \<Rightarrow> if t = [] then None else Some t)"
proof -
  from mappedProgress_from_data [OF assms] obtain item where
    "item \<in> set data" and "p = toAgentProgress item" by blast
  then show ?thesis
    by (intro bexI [of _ item]) (auto simp: toAgentProgress_def split: option.splits)
qed

theorem mappedProgress_defaults_witness:
  "\<exists>item\<in>set [row ''r1'' ''Writer'' None None None,
               row ''r2'' ''Editor'' (Some ''paused'') (Some 55) (Some ''2024-01-01T00:00:00.000Z'')].
           name \<lparr>name = ''Editor'', AgentProgress.status = ''paused'', AgentProgress.progress = 55,
                 currentTask = None\<rparr> = agent_name item
         \<and> AgentProgress.status \<lparr>name = ''Editor'', AgentProgress.status = ''paused'', AgentProgress.progress = 55,
                 currentTask = None\<rparr> =
             (case status item of None \<Rightarrow> ''waiting''
              | Some s \<Rightarrow> if s = [] then ''waiting'' else s)
         \<and> AgentProgress.progress \<lparr>name = ''Editor'', AgentProgress.status = ''paused'', AgentProgress.progress = 55,
                 currentTask = None\<rparr> = (case progress item of None \<Rightarrow> 0 | Some n \<Rightarrow> n)
         \<and> currentTask \<lparr>name = ''Editor'', AgentProgress.status = ''paused'', AgentProgress.progress = 55,
                 currentTask = None\<rparr> =
             (case current_task item of None \<Rightarrow> None
              | Some t \<Rightarrow> if t = [] then None else Some t)"
  by (rule mappedProgress_defaults [of _ Date_parse_sample]) (simp add: agg_defs)

section \<open>Properties of the transition system\<close>

lemmas hook_defs = run_def init_def useEffect_body_def subscribe_def drop_channel_def removeChannel_def
  fetchProgress_def fetchProgress_resume_def try_block_def setAgentProgress_def console_error_def
  cleanup_def run_cleanup_def

lemma run_Nil: "run parse [] w = w"
  by (simp add: run_def)

lemma run_Cons: "run parse (e # es) w = run parse es (step parse e w)"
  by (simp add: run_def)

text \<open>
  A fetch that settles with data while the component is mounted replaces the state.
\<close>

lemma settle_data:
  "mounted w \<Longrightarrow> map_of (inflight w) n = Some q
   \<Longrightarrow> step parse (Settles n (Responded (Some d) None) t) w
       = w\<lparr>inflight := filter (\<lambda>p. fst p \<noteq> n) (inflight w),
            agentProgress := mappedProgress parse d,
            trace := trace w @ [SetAgentProgress (mappedProgress parse d)]\<rparr>"
  by (simp add: fetchProgress_resume_def try_block_def setAgentProgress_def)

lemma map_of_filter_other:
  "a \<noteq> b \<Longrightarrow> map_of (filter (\<lambda>p. fst p \<noteq> b) xs) a = map_of xs a"
  by (induction xs) auto


text \<open>
  What closing the channel, the cleanup and the effect leave alone.
\<close>

lemma drop_channel_fields:
  "channelRef (drop_channel w) = None"
  "timeouts (drop_channel w) = timeouts w"
  "inflight (drop_channel w) = inflight w"
  "agentProgress (drop_channel w) = agentProgress w"
  "lastFetchRef (drop_channel w) = lastFetchRef w"
  "mounted (drop_channel w) = mounted w"
  "next_request (drop_channel w) = next_request w"
  "next_interval (drop_channel w) = next_interval w"
  "unhandled (drop_channel w) = unhandled w"
  "intervals (drop_channel w) = intervals w"
  by (simp_all add: drop_channel_def removeChannel_def split: option.splits)


lemma drop_channel_trace:
  "trace (drop_channel w) = trace w @ (case channelRef w of None \<Rightarrow> [] | Some c \<Rightarrow> [RemoveChannel c])"
  by (simp add: drop_channel_def removeChannel_def split: option.splits)

lemma cleanup_fields:
  "channelRef (cleanup i w) = None"
  "timeouts (cleanup i w) = timeouts w"
  "inflight (cleanup i w) = inflight w"
  "agentProgress (cleanup i w) = agentProgress w"
  "lastFetchRef (cleanup i w) = lastFetchRef w"
  "mounted (cleanup i w) = mounted w"
  "next_request (cleanup i w) = next_request w"
  "unhandled (cleanup i w) = unhandled w"
  "channels (cleanup i w) = channels (drop_channel w)"
  "intervals (cleanup i w) = filter (\<lambda>p. fst p \<noteq> i) (intervals w)"
  by (simp_all add: cleanup_def Let_def drop_channel_fields)

lemma run_cleanup_fields:
  "timeouts (run_cleanup w) = timeouts w"
  "inflight (run_cleanup w) = inflight w"
  "agentProgress (run_cleanup w) = agentProgress w"
  "lastFetchRef (run_cleanup w) = lastFetchRef w"
  "mounted (run_cleanup w) = mounted w"
  "next_request (run_cleanup w) = next_request w"
  "unhandled (run_cleanup w) = unhandled w"
  by (simp_all add: run_cleanup_def cleanup_fields split: option.splits)

lemma subscribe_fields:
  "agentProgress (subscribe q now stamp w) = agentProgress w"
  "unhandled (subscribe q now stamp w) = unhandled w"
  "mounted (subscribe q now stamp w) = mounted w"
  by (simp_all add: subscribe_def Let_def fetchProgress_def drop_channel_fields)

lemma subscribe_dropped:
  "now - lastFetchRef w < 500 \<Longrightarrow> inflight (subscribe q now stamp w) = inflight w"
  "now - lastFetchRef w < 500 \<Longrightarrow> lastFetchRef (subscribe q now stamp w) = lastFetchRef w"
  by (simp_all add: subscribe_def Let_def fetchProgress_def drop_channel_fields)

text \<open>
  The continuation of \<open>fetchProgress\<close> always completes normally, and changes neither
  \<open>lastFetchRef\<close> nor the list of unhandled rejections.
\<close>

lemma resume_total: "\<exists>w'. fetchProgress_resume parse r w = Inr w'"
  by (simp add: fetchProgress_resume_def try_block_def split: reply.splits option.splits sum.splits)

lemma resume_lastFetchRef:
  "fetchProgress_resume parse r w = Inr w' \<Longrightarrow> lastFetchRef w' = lastFetchRef w"
  by (auto simp: fetchProgress_resume_def try_block_def setAgentProgress_def console_error_def
      split: reply.splits option.splits if_splits)

lemma settles_lastFetchRef: "lastFetchRef (step parse (Settles n r t) w) = lastFetchRef w"
proof (cases "map_of (inflight w) n")
  case None
  then show ?thesis by simp
next
  case (Some q)
  obtain w' where w': "fetchProgress_resume parse r (w\<lparr>inflight := filter (\<lambda>p. fst p \<noteq> n) (inflight w)\<rparr>) = Inr w'"
    using resume_total by blast
  from resume_lastFetchRef [OF w'] Some w' show ?thesis by simp
qed

lemma fetchProgress_unhandled: "unhandled (fetchProgress q t w) = unhandled w"
  by (simp add: fetchProgress_def)

lemma resume_unhandled:
  "fetchProgress_resume parse r w = Inr w' \<Longrightarrow> unhandled w' = unhandled w"
  by (auto simp: fetchProgress_resume_def try_block_def setAgentProgress_def console_error_def
      split: reply.splits option.splits if_splits)

lemma step_unhandled: "unhandled (step parse e w) = unhandled w"
proof (cases e)
  case (Render q now stamp)
  then show ?thesis
    by (simp add: useEffect_body_def subscribe_fields run_cleanup_fields setAgentProgress_def
        split: option.splits)
next
  case Unmount
  then show ?thesis by (simp add: run_cleanup_fields)
next
  case (Notify c t)
  then show ?thesis by simp
next
  case (ChannelStatus x)
  then show ?thesis by (simp add: console_error_def split: option.splits)
next
  case (TimeoutFires k t)
  then show ?thesis by (simp add: fetchProgress_unhandled)
next
  case (IntervalTick i t)
  then show ?thesis by (simp add: fetchProgress_unhandled split: option.splits)
next
  case (Settles n r t)
  show ?thesis
  proof (cases "map_of (inflight w) n")
    case None
    with Settles show ?thesis by simp
  next
    case (Some q)
    obtain w' where w': "fetchProgress_resume parse r (w\<lparr>inflight := filter (\<lambda>p. fst p \<noteq> n) (inflight w)\<rparr>) = Inr w'"
      using resume_total by blast
    from resume_unhandled [OF w'] Some w' Settles show ?thesis by simp
  qed
qed

lemma run_unhandled: "unhandled (run parse es w) = unhandled w"
  by (induction es arbitrary: w) (simp_all add: run_Nil run_Cons step_unhandled del: step.simps)




text \<open>
  Timer callbacks that run within one window of less than 500 ms: once one of them has
  passed the guard, the others are dropped.
\<close>

lemma timeout_fires_dropped:
  "t - lastFetchRef w < 500 \<Longrightarrow>
     inflight (step parse (TimeoutFires k t) w) = inflight w
   \<and> lastFetchRef (step parse (TimeoutFires k t) w) = lastFetchRef w"
  by (simp add: fetchProgress_def)

lemma timeout_fires_cases:
  "(inflight (step parse (TimeoutFires k t) w) = inflight w
    \<and> lastFetchRef (step parse (TimeoutFires k t) w) = lastFetchRef w)
   \<or> (length (inflight (step parse (TimeoutFires k t) w)) = Suc (length (inflight w))
    \<and> lastFetchRef (step parse (TimeoutFires k t) w) = t)"
  by (simp add: fetchProgress_def)

lemma timeout_fires_served:
  "k < length (timeouts w) \<Longrightarrow> fst (timeouts w ! k) \<le> t \<Longrightarrow> 500 \<le> t - lastFetchRef w \<Longrightarrow>
     length (inflight (step parse (TimeoutFires k t) w)) = Suc (length (inflight w))
   \<and> lastFetchRef (step parse (TimeoutFires k t) w) = t"
  by (simp add: fetchProgress_def)

lemma burst_all_dropped:
  "\<forall>t\<in>set ts. t - lastFetchRef w < 500 \<Longrightarrow>
     inflight (run parse (map (TimeoutFires k) ts) w) = inflight w"
proof (induction ts arbitrary: w)
  case Nil
  then show ?case by (simp add: run_Nil)
next
  case (Cons t ts)
  let ?w = "step parse (TimeoutFires k t) w"
  from Cons.prems have d: "inflight ?w = inflight w \<and> lastFetchRef ?w = lastFetchRef w"
    by (intro timeout_fires_dropped) simp
  with Cons.prems have "\<forall>t\<in>set ts. t - lastFetchRef ?w < 500" by (simp del: step.simps)
  from Cons.IH [OF this] d show ?case by (simp add: run_Cons del: step.simps)
qed

lemma burst_at_most_one:
  "\<forall>t\<in>set ts. lo \<le> t \<and> t < lo + 500 \<Longrightarrow>
     length (inflight (run parse (map (TimeoutFires k) ts) w)) \<le> Suc (length (inflight w))"
proof (induction ts arbitrary: w)
  case Nil
  then show ?case by (simp add: run_Nil)
next
  case (Cons t ts)
  let ?w = "step parse (TimeoutFires k t) w"
  from Cons.prems have rest: "\<forall>t\<in>set ts. lo \<le> t \<and> t < lo + 500" by simp
  from timeout_fires_cases [of parse k t w] show ?case
  proof
    assume "inflight ?w = inflight w \<and> lastFetchRef ?w = lastFetchRef w"
    with Cons.IH [OF rest, of ?w] show ?thesis by (simp add: run_Cons del: step.simps)
  next
    assume s: "length (inflight ?w) = Suc (length (inflight w)) \<and> lastFetchRef ?w = t"
    from Cons.prems have "\<forall>u\<in>set ts. u - t < 500" by auto
    with s have "\<forall>u\<in>set ts. u - lastFetchRef ?w < 500" by (simp del: step.simps)
    from burst_all_dropped [OF this] s show ?thesis by (simp add: run_Cons del: step.simps)
  qed
qed

lemma burst_exactly_one:
  assumes "\<forall>t\<in>set (t1 # ts). lo \<le> t \<and> t < lo + 500"
    and "k < length (timeouts w)" and "fst (timeouts w ! k) \<le> t1" and "500 \<le> t1 - lastFetchRef w"
  shows "length (inflight (run parse (map (TimeoutFires k) (t1 # ts)) w)) = Suc (length (inflight w))"
proof -
  let ?w = "step parse (TimeoutFires k t1) w"
  from timeout_fires_served [OF assms(2,3,4)]
  have s: "length (inflight ?w) = Suc (length (inflight w)) \<and> lastFetchRef ?w = t1" .
  from assms(1) have "\<forall>u\<in>set ts. u - t1 < 500" by auto
  with s have "\<forall>u\<in>set ts. u - lastFetchRef ?w < 500" by (simp del: step.simps)
  from burst_all_dropped [OF this] s show ?thesis by (simp add: run_Cons del: step.simps)
qed

subsection \<open>Fetches that resolve out of order\<close>

text \<open>
  Against claim C4 as stated: fetch 0 (A) is sent at mount, fetch 1 (B) by the poll three
  seconds later; B resolves first, then A. The hook keeps no sequence number, A's
  continuation calls \<open>setAgentProgress\<close> like any other, and the state ends as A's older
  result.
\<close>

theorem stale_fetch_overwrites_counterexample:
  "agentProgress (run Date_parse_sample
     [Render (Some ''q1'') 1000 1000,
      IntervalTick 0 4000,
      Settles 1 (Responded (Some [row ''r2'' ''Writer'' (Some ''active'') (Some 20)
                                    (Some ''2024-01-01T00:00:01.000Z'')]) None) 4100,
      Settles 0 (Responded (Some [row ''r1'' ''Writer'' (Some ''active'') (Some 10)
                                    (Some ''2024-01-01T00:00:00.000Z'')]) None) 4200] init)
   = mappedProgress Date_parse_sample
       [row ''r1'' ''Writer'' (Some ''active'') (Some 10) (Some ''2024-01-01T00:00:00.000Z'')]
   \<and> mappedProgress Date_parse_sample
       [row ''r1'' ''Writer'' (Some ''active'') (Some 10) (Some ''2024-01-01T00:00:00.000Z'')]
     \<noteq> mappedProgress Date_parse_sample
       [row ''r2'' ''Writer'' (Some ''active'') (Some 20) (Some ''2024-01-01T00:00:01.000Z'')]
   \<and> trace (run Date_parse_sample
     [Render (Some ''q1'') 1000 1000, IntervalTick 0 4000] init)
     = [StoreRead 0 ''q1'', OpenChannel (''q1'', 1000), SetInterval 0, StoreRead 1 ''q1'']"
  by (simp add: hook_defs agg_defs)

text \<open>
  Claim C4, amended: when fetch A was sent before fetch B and both are awaited, and B
  resolves with data before A does, the visible state after both is the aggregate of A's
  data: the fetch that resolves last wins, and no result is discarded.
\<close>

theorem last_resolved_fetch_wins:
  assumes "mounted w"
    and "map_of (inflight w) a = Some qa"
    and "map_of (inflight w) b = Some qb"
    and "a < b"
  shows "agentProgress
           (step parse (Settles a (Responded (Some dA) None) tA)
              (step parse (Settles b (Responded (Some dB) None) tB) w))
         = mappedProgress parse dA"
proof -
  let ?w = "step parse (Settles b (Responded (Some dB) None) tB) w"
  have wb: "?w = w\<lparr>inflight := filter (\<lambda>p. fst p \<noteq> b) (inflight w),
            agentProgress := mappedProgress parse dB,
            trace := trace w @ [SetAgentProgress (mappedProgress parse dB)]\<rparr>"
    using assms(1,3) by (rule settle_data)
  from assms(4) have "a \<noteq> b" by simp
  then have inf: "map_of (inflight ?w) a = Some qa"
    using assms(2) by (subst wb) (simp add: map_of_filter_other)
  have m: "mounted ?w" using assms(1) by (subst wb) simp
  have "step parse (Settles a (Responded (Some dA) None) tA) ?w
       = ?w\<lparr>inflight := filter (\<lambda>p. fst p \<noteq> a) (inflight ?w),
            agentProgress := mappedProgress parse dA,
            trace := trace ?w @ [SetAgentProgress (mappedProgress parse dA)]\<rparr>"
    using m inf by (rule settle_data)
  then show ?thesis by (simp del: step.simps)
qed

theorem last_resolved_fetch_wins_witness:
  "agentProgress
     (step Date_parse_sample
        (Settles 0 (Responded (Some [row ''r1'' ''Writer'' (Some ''active'') (Some 10)
                                      (Some ''2024-01-01T00:00:00.000Z'')]) None) 4200)
        (step Date_parse_sample
           (Settles 1 (Responded (Some [row ''r2'' ''Writer'' (Some ''active'') (Some 20)
                                         (Some ''2024-01-01T00:00:01.000Z'')]) None) 4100)
           (run Date_parse_sample [Render (Some ''q1'') 1000 1000, IntervalTick 0 4000] init)))
   = mappedProgress Date_parse_sample
       [row ''r1'' ''Writer'' (Some ''active'') (Some 10) (Some ''2024-01-01T00:00:00.000Z'')]"
  by (rule last_resolved_fetch_wins [where qa = "''q1''" and qb = "''q1''"]) (simp_all add: hook_defs)

subsection \<open>Teardown\<close>




subsection \<open>The 500 ms guard\<close>

text \<open>
  Against claim C6 as stated: a fetch starts at 1000 and completes at 1450; the poll tick
  at 1600 comes 150 ms after the completion and is served, because \<open>lastFetchRef\<close>
  holds the time the fetch started.
\<close>

theorem fetch_after_completion_counterexample:
  "(1600::int) - 1450 < 500
   \<and> inflight (run Date_parse_sample
        [Render (Some ''q1'') 1000 1000,
         Settles 0 (Responded (Some []) None) 1450] init) = []
   \<and> trace (run Date_parse_sample
        [Render (Some ''q1'') 1000 1000,
         Settles 0 (Responded (Some []) None) 1450,
         IntervalTick 0 1600] init)
     = [StoreRead 0 ''q1'', OpenChannel (''q1'', 1000), SetInterval 0, SetAgentProgress [],
        StoreRead 1 ''q1'']"
  by (simp add: hook_defs agg_defs)

text \<open>
  Claim C6, amended: a request that arrives less than 500 ms after the start of the last
  fetch that was not dropped (\<open>lastFetchRef\<close>, one per hook instance) is dropped, whether
  it comes from the poll, from a debounce timer or from the effect: no store read, no new
  awaited fetch, no change of the state or of \<open>lastFetchRef\<close>. The completion of a fetch
  does not move \<open>lastFetchRef\<close>.
\<close>

theorem fetch_dropped_within_500ms_of_last_start:
  assumes "t - lastFetchRef w < 500"
  shows "step parse (IntervalTick i t) w = w
       \<and> inflight (step parse (TimeoutFires k t) w) = inflight w
       \<and> agentProgress (step parse (TimeoutFires k t) w) = agentProgress w
       \<and> lastFetchRef (step parse (TimeoutFires k t) w) = lastFetchRef w
       \<and> trace (step parse (TimeoutFires k t) w) = trace w
       \<and> inflight (step parse (Render (Some q) t stamp) w) = inflight w
       \<and> lastFetchRef (step parse (Render (Some q) t stamp) w) = lastFetchRef w
       \<and> (q \<noteq> [] \<longrightarrow> agentProgress (step parse (Render (Some q) t stamp) w) = agentProgress w)
       \<and> lastFetchRef (step parse (Settles n r t') w) = lastFetchRef w"
proof -
  have tick: "step parse (IntervalTick i t) w = w"
    using assms by (simp add: fetchProgress_def split: option.splits)
  have fire: "inflight (step parse (TimeoutFires k t) w) = inflight w
       \<and> agentProgress (step parse (TimeoutFires k t) w) = agentProgress w
       \<and> lastFetchRef (step parse (TimeoutFires k t) w) = lastFetchRef w
       \<and> trace (step parse (TimeoutFires k t) w) = trace w"
    using assms by (simp add: fetchProgress_def)
  have seed: "inflight (step parse (Render (Some q) t stamp) w) = inflight w
       \<and> lastFetchRef (step parse (Render (Some q) t stamp) w) = lastFetchRef w
       \<and> (q \<noteq> [] \<longrightarrow> agentProgress (step parse (Render (Some q) t stamp) w) = agentProgress w)"
    using assms
    by (simp add: useEffect_body_def subscribe_fields subscribe_dropped run_cleanup_fields
        setAgentProgress_def)
  from tick fire seed settles_lastFetchRef [of parse n r t' w] show ?thesis
    by (simp del: step.simps)
qed

theorem fetch_dropped_within_500ms_of_last_start_witness:
  "step Date_parse_sample (IntervalTick 0 1400)
     (run Date_parse_sample [Render (Some ''q1'') 1000 1000, Notify (''q1'', 1000) 1200] init)
   = run Date_parse_sample [Render (Some ''q1'') 1000 1000, Notify (''q1'', 1000) 1200] init
   \<and> inflight (step Date_parse_sample (TimeoutFires 0 1400)
       (run Date_parse_sample [Render (Some ''q1'') 1000 1000, Notify (''q1'', 1000) 1200] init))
     = [(0, ''q1'')]
   \<and> inflight (step Date_parse_sample (Render (Some ''q2'') 1400 1400)
       (run Date_parse_sample [Render (Some ''q1'') 1000 1000, Notify (''q1'', 1000) 1200] init))
     = [(0, ''q1'')]"
proof -
  let ?w = "run Date_parse_sample [Render (Some ''q1'') 1000 1000, Notify (''q1'', 1000) 1200] init"
  have w: "lastFetchRef ?w = 1000" "inflight ?w = [(0, ''q1'')]"
    by (simp_all add: hook_defs)
  then have h: "1400 - lastFetchRef ?w < 500" by (simp del: step.simps)
  from fetch_dropped_within_500ms_of_last_start [OF h, of Date_parse_sample 0 0 "''q2''" 1400 0 "Threw []" 0]
  show ?thesis by (simp only: w)
qed

subsection \<open>Push notifications\<close>

text \<open>
  Against claim C7 as stated: ten notifications within 45 ms leave ten pending timers, one
  per notification; no timer is cancelled or shared.
\<close>

theorem ten_notifications_ten_timers_counterexample:
  "timeouts (run Date_parse_sample
     [Render (Some ''q1'') 1000 1000,
      Notify (''q1'', 1000) 2000, Notify (''q1'', 1000) 2005, Notify (''q1'', 1000) 2010,
      Notify (''q1'', 1000) 2015, Notify (''q1'', 1000) 2020, Notify (''q1'', 1000) 2025,
      Notify (''q1'', 1000) 2030, Notify (''q1'', 1000) 2035, Notify (''q1'', 1000) 2040,
      Notify (''q1'', 1000) 2045] init)
   = [(2100, ''q1''), (2105, ''q1''), (2110, ''q1''), (2115, ''q1''), (2120, ''q1''),
      (2125, ''q1''), (2130, ''q1''), (2135, ''q1''), (2140, ''q1''), (2145, ''q1'')]"
  by (simp add: hook_defs)

text \<open>
  Claim C7, amended: a notification on a live channel runs nothing inline, it schedules
  one call of \<open>fetchProgress\<close> 100 ms later, one timer per notification. Of the timer
  callbacks that run within a window shorter than 500 ms at most one reads the store, and
  exactly one does when the first of them runs at least 500 ms after the last fetch
  started.
\<close>

theorem push_fetch_delayed_and_burst_reads_once:
  assumes "c \<in> set (channels w)"
    and "\<forall>t\<in>set (t1 # ts). lo \<le> t \<and> t < lo + 500"
  shows "step parse (Notify c t) w
           = w\<lparr>timeouts := timeouts w @ [(t + 100, fst c)], trace := trace w @ [SetTimeout (t + 100)]\<rparr>
       \<and> length (inflight (run parse (map (TimeoutFires 0) (t1 # ts)) w)) \<le> Suc (length (inflight w))
       \<and> (0 < length (timeouts w) \<and> fst (timeouts w ! 0) \<le> t1 \<and> 500 \<le> t1 - lastFetchRef w \<longrightarrow>
            length (inflight (run parse (map (TimeoutFires 0) (t1 # ts)) w)) = Suc (length (inflight w)))"
proof -
  have a: "step parse (Notify c t) w
           = w\<lparr>timeouts := timeouts w @ [(t + 100, fst c)], trace := trace w @ [SetTimeout (t + 100)]\<rparr>"
    using assms(1) by simp
  have b: "length (inflight (run parse (map (TimeoutFires 0) (t1 # ts)) w)) \<le> Suc (length (inflight w))"
    using assms(2) by (rule burst_at_most_one)
  have c: "0 < length (timeouts w) \<and> fst (timeouts w ! 0) \<le> t1 \<and> 500 \<le> t1 - lastFetchRef w \<longrightarrow>
            length (inflight (run parse (map (TimeoutFires 0) (t1 # ts)) w)) = Suc (length (inflight w))"
    using burst_exactly_one [OF assms(2)] by blast
  from a b c show ?thesis by blast
qed

theorem push_fetch_delayed_and_burst_reads_once_witness:
  "step Date_parse_sample (Notify (''q1'', 1000) 2010)
     (run Date_parse_sample
        [Render (Some ''q1'') 1000 1000, Notify (''q1'', 1000) 2000, Notify (''q1'', 1000) 2005] init)
   = (run Date_parse_sample
        [Render (Some ''q1'') 1000 1000, Notify (''q1'', 1000) 2000, Notify (''q1'', 1000) 2005] init)
     \<lparr>timeouts := [(2100, ''q1''), (2105, ''q1''), (2110, ''q1'')],
      trace := [StoreRead 0 ''q1'', OpenChannel (''q1'', 1000), SetInterval 0,
                SetTimeout 2100, SetTimeout 2105, SetTimeout 2110]\<rparr>
   \<and> length (inflight (run Date_parse_sample (map (TimeoutFires 0) [2100, 2105])
       (run Date_parse_sample
        [Render (Some ''q1'') 1000 1000, Notify (''q1'', 1000) 2000, Notify (''q1'', 1000) 2005] init)))
     = 2"
proof -
  let ?w = "run Date_parse_sample
        [Render (Some ''q1'') 1000 1000, Notify (''q1'', 1000) 2000, Notify (''q1'', 1000) 2005] init"
  have w: "channels ?w = [(''q1'', 1000)]" "timeouts ?w = [(2100, ''q1''), (2105, ''q1'')]"
    "lastFetchRef ?w = 1000" "inflight ?w = [(0, ''q1'')]"
    "trace ?w = [StoreRead 0 ''q1'', OpenChannel (''q1'', 1000), SetInterval 0,
                SetTimeout 2100, SetTimeout 2105]"
    by (simp_all add: hook_defs)
  have h1: "(''q1'', 1000) \<in> set (channels ?w)" by (simp only: w) simp
  have h2: "\<forall>t\<in>set (2100 # [2105]). (2100::int) \<le> t \<and> t < 2100 + 500" by simp
  from push_fetch_delayed_and_burst_reads_once [OF h1 h2, of Date_parse_sample 2010]
  show ?thesis by (simp only: w) (simp del: step.simps)
qed

subsection \<open>Failed fetches\<close>

text \<open>
  Claim C8: when an awaited fetch fails, by a thrown exception or by an error in the
  response, the aggregated state stays as it was, the only action is one
  \<open>console.error\<close> with the error, the fetch is no longer awaited, and no sequence of
  events ever leaves a rejection unhandled.
\<close>

theorem failed_fetch_keeps_state:
  assumes "map_of (inflight w) n = Some q"
    and "r = Threw e \<or> r = Responded d (Some e)"
  shows "agentProgress (step parse (Settles n r t) w) = agentProgress w
       \<and> (\<exists>msg. trace (step parse (Settles n r t) w) = trace w @ [ConsoleError msg e])
       \<and> inflight (step parse (Settles n r t) w) = filter (\<lambda>p. fst p \<noteq> n) (inflight w)
       \<and> unhandled (run parse es w) = unhandled w"
  using assms
  by (auto simp: fetchProgress_resume_def try_block_def console_error_def run_unhandled)

theorem failed_fetch_keeps_state_witness:
  "agentProgress (step Date_parse_sample (Settles 1 (Threw ''network down'') 4300)
      (run Date_parse_sample
        [Render (Some ''q1'') 1000 1000,
         Settles 0 (Responded (Some [row ''r1'' ''Writer'' (Some ''active'') (Some 10)
                                       (Some ''2024-01-01T00:00:00.000Z'')]) None) 1200,
         IntervalTick 0 4000] init))
   = [\<lparr>name = ''Writer'', AgentProgress.status = ''active'', AgentProgress.progress = 10,
       currentTask = None\<rparr>]"
proof -
  let ?w = "run Date_parse_sample
        [Render (Some ''q1'') 1000 1000,
         Settles 0 (Responded (Some [row ''r1'' ''Writer'' (Some ''active'') (Some 10)
                                       (Some ''2024-01-01T00:00:00.000Z'')]) None) 1200,
         IntervalTick 0 4000] init"
  have w: "map_of (inflight ?w) 1 = Some ''q1''"
    "agentProgress ?w = [\<lparr>name = ''Writer'', AgentProgress.status = ''active'',
       AgentProgress.progress = 10, currentTask = None\<rparr>]"
    by (simp_all add: hook_defs agg_defs)
  have h: "Threw ''network down'' = Threw ''network down'' \<or> Threw ''network down'' = Responded None (Some ''network down'')"
    by simp
  from failed_fetch_keeps_state [OF w(1) h, of Date_parse_sample 4300 "[]"]
  show ?thesis by (simp only: w)
qed

subsection \<open>Entering a subscription\<close>

text \<open>
  Against claim C9 as stated: the query id changes from \<open>q1\<close> to \<open>q2\<close> 200 ms after
  the seed fetch for \<open>q1\<close> started. The effect for \<open>q2\<close> opens its channel and starts its
  interval, but its call of \<open>fetchProgress\<close> is dropped by the guard: no store read for
  \<open>q2\<close>.
\<close>

theorem seed_fetch_dropped_counterexample:
  "trace (run Date_parse_sample
     [Render (Some ''q1'') 1000 1000, Render (Some ''q2'') 1200 1200] init)
   = [StoreRead 0 ''q1'', OpenChannel (''q1'', 1000), SetInterval 0,
      RemoveChannel (''q1'', 1000), ClearInterval 0,
      OpenChannel (''q2'', 1200), SetInterval 1]
   \<and> inflight (run Date_parse_sample
     [Render (Some ''q1'') 1000 1000, Render (Some ''q2'') 1200 1200] init) = [(0, ''q1'')]"
  by (simp add: hook_defs)

text \<open>
  Claim C9, amended: for a non-empty query id the effect first removes a channel still
  held in \<open>channelRef\<close>, then calls \<open>fetchProgress\<close> inline (no timer), which reads the
  store unless less than 500 ms have passed since the last fetch started, then opens the
  push channel, then starts the polling interval, in this order.
\<close>

theorem subscribe_order:
  assumes "q \<noteq> []"
  shows "trace (useEffect_body (Some q) now stamp w)
         = trace w
           @ (case channelRef w of None \<Rightarrow> [] | Some c \<Rightarrow> [RemoveChannel c])
           @ (if now - lastFetchRef w < 500 then [] else [StoreRead (next_request w) q])
           @ [OpenChannel (q, stamp), SetInterval (next_interval w)]
       \<and> channelRef (useEffect_body (Some q) now stamp w) = Some (q, stamp)
       \<and> (q, stamp) \<in> set (channels (useEffect_body (Some q) now stamp w))
       \<and> (next_interval w, q) \<in> set (intervals (useEffect_body (Some q) now stamp w))
       \<and> timeouts (useEffect_body (Some q) now stamp w) = timeouts w"
  using assms
  by (simp add: useEffect_body_def subscribe_def Let_def fetchProgress_def drop_channel_fields
      drop_channel_trace)

theorem subscribe_order_witness:
  "trace (useEffect_body (Some ''q1'') 1000 1001 init)
   = [StoreRead 0 ''q1'', OpenChannel (''q1'', 1001), SetInterval 0]"
  using subscribe_order [of "''q1''" 1000 1001 init]
  by (simp add: init_def)

end
